theory Spec2Isabelle
  imports Complex_Main "HOL-Library.AList" "HOL-Library.Multiset"
begin

section \<open>Thrown values and settled promises\<close>

text \<open>
  The JavaScript sources throw \<open>Error\<close> objects (\<open>new Error(msg)\<close>) and the runtime
  throws \<open>TypeError\<close> and \<open>SyntaxError\<close>. A function that can throw returns a sum, with
  \<open>Inl\<close> for the thrown value. Where the source can throw a variable that was never
  assigned (\<open>let lastError; ... throw lastError\<close>), the thrown value is a
  \<open>js_error option\<close> and \<open>None\<close> stands for \<open>undefined\<close>.
\<close>

datatype js_error = Error string | TypeError string | SyntaxError string

fun message :: "js_error \<Rightarrow> string" where
  "message (Error m) = m"
| "message (TypeError m) = m"
| "message (SyntaxError m) = m"

text \<open>
  An awaited call made by the engine (a provider request) is settled by the outside
  world: it resolves with a value, rejects with an error, or is still pending when the
  timer it races against fires.
\<close>

datatype 'a settle = Resolves 'a | Rejects js_error | Pending

section \<open>The AI engine (src/background/ai-engine.js)\<close>

subsection \<open>executeWithRetry\<close>

text \<open>
  \<^verbatim>\<open>Promise.race([operation(), this.timeout(this.config.timeout)])\<close>: the timer rejects
  with \<open>new Error('Request timeout')\<close>, so a pending operation counts as a failed
  attempt with that error.
\<close>

definition race_timeout :: "'a settle \<Rightarrow> js_error + 'a" where
  "race_timeout r =
     (case r of
        Resolves v \<Rightarrow> Inr v
      | Rejects e \<Rightarrow> Inl e
      | Pending \<Rightarrow> Inl (Error ''Request timeout''))"

text \<open>
  What the engine does that an observer can see: it checks a provider's rate limiter,
  it invokes the operation, it sleeps (\<open>this.delay(ms)\<close>).
\<close>

datatype engine_event = RateCheck string | Attempt | Delay nat

text \<open>
  The loop \<^verbatim>\<open>for (let i = 0; i < maxRetries; i++)\<close> of \<open>executeWithRetry\<close>, from index
  \<open>i\<close> on. The operation is a function of the outside world \<open>'w\<close>, which it may change.
  The result carries the world after the last attempt and the events in order.
\<close>

function retry_from ::
  "('w \<Rightarrow> 'a settle \<times> 'w) \<Rightarrow> nat \<Rightarrow> nat \<Rightarrow> js_error option \<Rightarrow> 'w \<Rightarrow> engine_event list
     \<Rightarrow> (js_error option + 'a) \<times> 'w \<times> engine_event list"
where
  "retry_from operation maxRetries i lastError w tr =
     (if i < maxRetries then
        (case operation w of
           (r, w') \<Rightarrow>
             (case race_timeout r of
                Inr v \<Rightarrow> (Inr v, w', tr @ [Attempt])
              | Inl e \<Rightarrow>
                  retry_from operation maxRetries (Suc i) (Some e) w'
                    (if i < maxRetries - 1
                     then tr @ [Attempt, Delay (2 ^ i * 1000)]
                     else tr @ [Attempt])))
      else (Inl lastError, w, tr))"
  by pat_completeness auto
termination
  by (relation "measure (\<lambda>(operation, maxRetries, i, lastError, w, tr). maxRetries - i)") auto

definition executeWithRetry ::
  "('w \<Rightarrow> 'a settle \<times> 'w) \<Rightarrow> nat \<Rightarrow> 'w
     \<Rightarrow> (js_error option + 'a) \<times> 'w \<times> engine_event list"
where
  "executeWithRetry operation maxRetries w = retry_from operation maxRetries 0 None w []"

text \<open>The error an attempt fails with, if it fails.\<close>

definition attempt_error :: "'a settle \<Rightarrow> js_error option" where
  "attempt_error r = (case race_timeout r of Inl e \<Rightarrow> Some e | Inr v \<Rightarrow> None)"

subsection \<open>RateLimiter\<close>

text \<open>
  The class keeps the timestamps of the recorded requests. Every method starts with
  \<open>cleanup()\<close>, which reads the clock (\<open>Date.now()\<close>) and drops the timestamps that
  are a full window old. The clock readings are arguments of the model.
\<close>

record rate_limiter =
  maxRequests :: nat
  windowMs :: int
  requests :: "int list"

definition new_limiter :: "nat \<Rightarrow> int \<Rightarrow> rate_limiter" where
  "new_limiter n ms = \<lparr>maxRequests = n, windowMs = ms, requests = []\<rparr>"

definition cleanup :: "int \<Rightarrow> rate_limiter \<Rightarrow> rate_limiter" where
  "cleanup now rl = rl\<lparr>requests := filter (\<lambda>time. now - time < windowMs rl) (requests rl)\<rparr>"

definition canMakeRequest :: "int \<Rightarrow> rate_limiter \<Rightarrow> bool \<times> rate_limiter" where
  "canMakeRequest now rl =
     (let rl' = cleanup now rl in (length (requests rl') < maxRequests rl', rl'))"

text \<open>\<open>recordRequest\<close> reads the clock twice: in \<open>cleanup()\<close> and for the pushed timestamp.\<close>

definition recordRequest :: "int \<Rightarrow> int \<Rightarrow> rate_limiter \<Rightarrow> rate_limiter" where
  "recordRequest now now' rl =
     (let rl' = cleanup now rl in rl'\<lparr>requests := requests rl' @ [now']\<rparr>)"

definition getRemaining :: "int \<Rightarrow> rate_limiter \<Rightarrow> nat \<times> rate_limiter" where
  "getRemaining now rl =
     (let rl' = cleanup now rl in (maxRequests rl' - length (requests rl'), rl'))"

text \<open>
  The engine admits a request with the pair \<open>canMakeRequest()\<close> / \<open>recordRequest()\<close>
  (\<open>executeWithFallback\<close>, with no suspension point between the two calls): the request
  is recorded only when the check passed. This pair is the non-blocking acquire of the
  limiter; \<open>t1\<close>, \<open>t2\<close>, \<open>t3\<close> are its three clock readings.
\<close>

definition tryAcquire :: "int \<times> int \<times> int \<Rightarrow> rate_limiter \<Rightarrow> bool \<times> rate_limiter" where
  "tryAcquire t rl =
     (case t of
        (t1, t2, t3) \<Rightarrow>
          (case canMakeRequest t1 rl of
             (ok, rl1) \<Rightarrow> if ok then (True, recordRequest t2 t3 rl1) else (False, rl1)))"

text \<open>
  A history of calls on one limiter. A call is an acquire, or a check that no recording
  follows: \<open>executeWithFallback\<close> checks the limiter of a provider before it finds that
  the provider has no API key and moves on. The state of a history is the limiter and
  the list of the timestamps of the admitted requests, oldest first.
\<close>

datatype limiter_call = Acquire int int int | CheckOnly int

fun limiter_step :: "rate_limiter \<times> int list \<Rightarrow> limiter_call \<Rightarrow> rate_limiter \<times> int list" where
  "limiter_step (rl, admitted) (Acquire t1 t2 t3) =
     (case tryAcquire (t1, t2, t3) rl of
        (ok, rl') \<Rightarrow> (rl', if ok then admitted @ [t3] else admitted))"
| "limiter_step (rl, admitted) (CheckOnly t) = (snd (canMakeRequest t rl), admitted)"

definition limiter_history :: "nat \<Rightarrow> int \<Rightarrow> limiter_call list \<Rightarrow> rate_limiter \<times> int list" where
  "limiter_history n ms calls = foldl limiter_step (new_limiter n ms, []) calls"

text \<open>All clock readings of a history, in the order they are taken.\<close>

fun call_readings :: "limiter_call \<Rightarrow> int list" where
  "call_readings (Acquire t1 t2 t3) = [t1, t2, t3]"
| "call_readings (CheckOnly t) = [t]"

definition readings :: "limiter_call list \<Rightarrow> int list" where
  "readings calls = concat (map call_readings calls)"

subsection \<open>The response cache\<close>

text \<open>
  \<open>this.cache\<close> is a \<open>Map\<close> from key to \<open>{data, timestamp}\<close>. A \<open>Map\<close> iterates in
  insertion order and \<open>set\<close> on a present key keeps its position, so the cache is an
  association list: \<open>AList.update\<close> replaces in place or appends, \<open>AList.delete\<close>
  removes the key. \<open>getFromCache\<close> returns \<open>cached.data\<close> or \<open>null\<close> (\<open>None\<close>); the time
  to live is \<open>this.config.cacheExpiry\<close>, the same for every entry.
\<close>

type_synonym 'v cache = "(string \<times> 'v \<times> int) list"

definition getFromCache :: "string \<Rightarrow> int \<Rightarrow> int \<Rightarrow> 'v cache \<Rightarrow> 'v option \<times> 'v cache" where
  "getFromCache key now cacheExpiry c =
     (case map_of c key of
        Some (data, timestamp) \<Rightarrow>
          if now - timestamp < cacheExpiry then (Some data, c)
          else (None, AList.delete key c)
      | None \<Rightarrow> (None, AList.delete key c))"

definition setCache :: "string \<Rightarrow> 'v \<Rightarrow> int \<Rightarrow> 'v cache \<Rightarrow> 'v cache" where
  "setCache key data now c =
     (let c1 = AList.update key (data, now) c
      in if length c1 > 100
         then (case c1 of (firstKey, entry) # rest \<Rightarrow> AList.delete firstKey c1 | [] \<Rightarrow> c1)
         else c1)"

text \<open>The operations the engine performs on its cache, and a history of them.\<close>

datatype 'v cache_op = SetCache string 'v int | GetFromCache string int int | ClearCache

fun cache_step :: "'v cache \<Rightarrow> 'v cache_op \<Rightarrow> 'v cache" where
  "cache_step c (SetCache key data now) = setCache key data now c"
| "cache_step c (GetFromCache key now cacheExpiry) = snd (getFromCache key now cacheExpiry c)"
| "cache_step c ClearCache = []"

definition cache_after :: "'v cache_op list \<Rightarrow> 'v cache" where
  "cache_after ops = foldl cache_step [] ops"

subsection \<open>AIMetrics.getSuccessRate and getProviderOrder\<close>

text \<open>
  \<open>this.metrics.requests\<close> is a \<open>Map\<close> from a key to a count; \<open>get(key) || 0\<close> reads
  a missing key as 0. The rate is the quotient of two counts and is kept as an exact
  rational: the doubles the source computes are ordered the same way as long as the
  counts stay below 2^26.
\<close>

definition getSuccessRate :: "(string \<rightharpoonup> nat) \<Rightarrow> string \<Rightarrow> rat" where
  "getSuccessRate reqs provider =
     (let success = (case reqs (provider @ '':success'') of Some n \<Rightarrow> n | None \<Rightarrow> 0);
          failure = (case reqs (provider @ '':failure'') of Some n \<Rightarrow> n | None \<Rightarrow> 0);
          total = success + failure
      in if total > 0 then of_nat success / of_nat total else 1 / 2)"

text \<open>
  \<open>Array.prototype.sort(compare)\<close> is a stable sort: an element stays in front of a
  later one unless the comparison puts the later one strictly first. It is modelled by
  the stable insertion sort, inserting from the right.
\<close>

fun insert_by :: "('a \<Rightarrow> 'a \<Rightarrow> rat) \<Rightarrow> 'a \<Rightarrow> 'a list \<Rightarrow> 'a list" where
  "insert_by compare x [] = [x]"
| "insert_by compare x (y # ys) =
     (if compare x y \<le> 0 then x # y # ys else y # insert_by compare x ys)"

definition sort_by :: "('a \<Rightarrow> 'a \<Rightarrow> rat) \<Rightarrow> 'a list \<Rightarrow> 'a list" where
  "sort_by compare xs = foldr (insert_by compare) xs []"

text \<open>
  \<open>order\<close> is \<open>Object.keys(this.providers)\<close>, the provider names in declaration order.
  \<open>preferred\<close> is \<open>None\<close> for \<open>null\<close> or \<open>undefined\<close>; the empty string is falsy.
\<close>

definition getProviderOrder :: "string list \<Rightarrow> (string \<rightharpoonup> nat) \<Rightarrow> string option \<Rightarrow> string list"
where
  "getProviderOrder order reqs preferred =
     (let by_rate = sort_by (\<lambda>a b. getSuccessRate reqs b - getSuccessRate reqs a) order
      in case preferred of
           None \<Rightarrow> by_rate
         | Some p \<Rightarrow>
             if p \<noteq> [] \<and> p \<in> set order then p # filter (\<lambda>q. q \<noteq> p) order else by_rate)"

subsection \<open>executeWithFallback\<close>




section \<open>JavaScript values\<close>

text \<open>
  The conditions of a workflow step compare plain data: what JSON carries, and
  \<open>undefined\<close>. Numbers are the finite doubles, each an exact rational; \<open>NaN\<close> arises only
  as the result of a conversion and is \<open>None\<close> there. An object is the list of its own
  properties in insertion order; members inherited from a prototype (methods such as
  \<open>toString\<close>) are not data and are not part of the model.
\<close>

datatype jsval =
    JUndefined | JNull | JBool bool | JNum rat | JStr string
  | JArr "jsval list" | JObj "(string \<times> jsval) list"

text \<open>
  What the language runtime supplies and the model does not compute: the numeric value of
  a string (\<open>None\<close> for \<open>NaN\<close>), the text of a number, the outcome of
  \<open>new RegExp(pattern).test(text)\<close> (\<open>None\<close> when the pattern is not a regular
  expression and the constructor throws a \<open>SyntaxError\<close>), and whether two operands that
  are objects are one and the same object, which their contents do not tell.
\<close>

record host =
  stringToNumber :: "string \<Rightarrow> rat option"
  numberToString :: "rat \<Rightarrow> string"
  regExpTest :: "string \<Rightarrow> string \<Rightarrow> bool option"
  sameObject :: "jsval \<Rightarrow> jsval \<Rightarrow> bool"

fun join_comma :: "string list \<Rightarrow> string" where
  "join_comma [] = []"
| "join_comma [x] = x"
| "join_comma (x # y # ys) = x @ '','' @ join_comma (y # ys)"

text \<open>
  \<open>String(v)\<close>. An array prints its elements separated by commas, \<open>null\<close> and
  \<open>undefined\<close> elements as the empty string; any other object prints as
  \<open>[object Object]\<close>.
\<close>

fun toString :: "host \<Rightarrow> jsval \<Rightarrow> string" where
  "toString h JUndefined = ''undefined''"
| "toString h JNull = ''null''"
| "toString h (JBool b) = (if b then ''true'' else ''false'')"
| "toString h (JNum n) = numberToString h n"
| "toString h (JStr s) = s"
| "toString h (JArr xs) =
     join_comma (map (\<lambda>x. if x = JUndefined \<or> x = JNull then [] else toString h x) xs)"
| "toString h (JObj kvs) = ''[object Object]''"

fun isObject :: "jsval \<Rightarrow> bool" where
  "isObject (JArr xs) = True"
| "isObject (JObj kvs) = True"
| "isObject v = False"

fun isNullish :: "jsval \<Rightarrow> bool" where
  "isNullish JUndefined = True"
| "isNullish JNull = True"
| "isNullish v = False"

text \<open>\<open>ToPrimitive\<close>: an object becomes its string, a primitive stays.\<close>

definition toPrimitive :: "host \<Rightarrow> jsval \<Rightarrow> jsval" where
  "toPrimitive h v = (if isObject v then JStr (toString h v) else v)"

text \<open>\<open>ToNumber\<close>, with \<open>None\<close> for \<open>NaN\<close>.\<close>

fun toNumber :: "host \<Rightarrow> jsval \<Rightarrow> rat option" where
  "toNumber h JUndefined = None"
| "toNumber h JNull = Some 0"
| "toNumber h (JBool b) = Some (if b then 1 else 0)"
| "toNumber h (JNum n) = Some n"
| "toNumber h (JStr s) = stringToNumber h s"
| "toNumber h (JArr xs) = stringToNumber h (toString h (JArr xs))"
| "toNumber h (JObj kvs) = stringToNumber h (toString h (JObj kvs))"

text \<open>
  The operator \<open>==\<close> (IsLooselyEqual): a boolean operand is first replaced by its number;
  \<open>null\<close> and \<open>undefined\<close> equal each other and nothing else; two objects are equal when
  they are the same object; an object against a primitive is compared through its
  string; a number against a string is compared through the string's number.
\<close>

fun boolToNumber :: "jsval \<Rightarrow> jsval" where
  "boolToNumber (JBool b) = JNum (if b then 1 else 0)"
| "boolToNumber v = v"

definition looseEq :: "host \<Rightarrow> jsval \<Rightarrow> jsval \<Rightarrow> bool" where
  "looseEq h x y =
     (let a = boolToNumber x; b = boolToNumber y
      in if isNullish a \<or> isNullish b then isNullish a \<and> isNullish b
         else if isObject a \<and> isObject b then sameObject h a b
         else (case (toPrimitive h a, toPrimitive h b) of
                 (JNum m, JNum n) \<Rightarrow> m = n
               | (JStr s, JStr t) \<Rightarrow> s = t
               | (JNum m, JStr t) \<Rightarrow> stringToNumber h t = Some m
               | (JStr s, JNum n) \<Rightarrow> stringToNumber h s = Some n
               | _ \<Rightarrow> False))"

text \<open>Strings are ordered by their code units, the shorter of two prefixes first.\<close>

fun strLess :: "string \<Rightarrow> string \<Rightarrow> bool" where
  "strLess [] [] = False"
| "strLess [] (y # ys) = True"
| "strLess (x # xs) [] = False"
| "strLess (x # xs) (y # ys) =
     ((of_char x :: nat) < of_char y \<or> (x = y \<and> strLess xs ys))"

text \<open>
  IsLessThan, the relation behind the four ordering operators: two strings are compared
  as strings, anything else as numbers, and the result is undefined (\<open>None\<close>) when a
  side is \<open>NaN\<close>.
\<close>

definition lessThan :: "host \<Rightarrow> jsval \<Rightarrow> jsval \<Rightarrow> bool option" where
  "lessThan h x y =
     (case (toPrimitive h x, toPrimitive h y) of
        (JStr s, JStr t) \<Rightarrow> Some (strLess s t)
      | (px, py) \<Rightarrow>
          (case (toNumber h px, toNumber h py) of
             (Some m, Some n) \<Rightarrow> Some (m < n)
           | _ \<Rightarrow> None))"

text \<open>\<open>text.includes(part)\<close>: some suffix of the text starts with the part.\<close>

fun str_includes :: "string \<Rightarrow> string \<Rightarrow> bool" where
  "str_includes [] part = (part = [])"
| "str_includes (c # cs) part = (take (length part) (c # cs) = part \<or> str_includes cs part)"

text \<open>
  Property access \<open>v[key]\<close>. Reading a property of \<open>null\<close> or \<open>undefined\<close> throws a
  \<open>TypeError\<close>. A string and an array have \<open>length\<close> and their indices, written in
  decimal without a leading zero; any other own property is missing and reads as
  \<open>undefined\<close>.
\<close>

definition isDigit :: "char \<Rightarrow> bool" where
  "isDigit c = (48 \<le> (of_char c :: nat) \<and> (of_char c :: nat) \<le> 57)"

definition arrayIndex :: "string \<Rightarrow> nat option" where
  "arrayIndex s =
     (if s \<noteq> [] \<and> list_all isDigit s \<and> (s = ''0'' \<or> hd s \<noteq> CHR ''0'')
      then Some (foldl (\<lambda>n c. 10 * n + (of_char c - 48)) 0 s)
      else None)"

fun getProp :: "jsval \<Rightarrow> string \<Rightarrow> js_error + jsval" where
  "getProp JUndefined key = Inl (TypeError ''Cannot read properties of undefined'')"
| "getProp JNull key = Inl (TypeError ''Cannot read properties of null'')"
| "getProp (JBool b) key = Inr JUndefined"
| "getProp (JNum n) key = Inr JUndefined"
| "getProp (JStr s) key =
     Inr (if key = ''length'' then JNum (of_nat (length s))
          else (case arrayIndex key of
                  Some i \<Rightarrow> if i < length s then JStr [s ! i] else JUndefined
                | None \<Rightarrow> JUndefined))"
| "getProp (JArr xs) key =
     Inr (if key = ''length'' then JNum (of_nat (length xs))
          else (case arrayIndex key of
                  Some i \<Rightarrow> if i < length xs then xs ! i else JUndefined
                | None \<Rightarrow> JUndefined))"
| "getProp (JObj kvs) key =
     Inr (case map_of kvs key of Some v \<Rightarrow> v | None \<Rightarrow> JUndefined)"

section \<open>The service worker\<close>

subsection \<open>resolveValue, evaluateCondition, evaluateConditions\<close>

text \<open>\<open>s.split('.')\<close>: the pieces between the dots, at least one.\<close>

fun split_dot :: "string \<Rightarrow> string list" where
  "split_dot [] = [[]]"
| "split_dot (c # cs) =
     (if c = CHR ''.'' then [] # split_dot cs
      else (case split_dot cs of
              w # ws \<Rightarrow> (c # w) # ws
            | [] \<Rightarrow> [[c]]))"

text \<open>
  The loop of \<open>resolveValue\<close>:
  \<^verbatim>\<open>for (const key of path) { result = result[key]; if (result === undefined) break; }\<close>
\<close>

fun walk :: "jsval \<Rightarrow> string list \<Rightarrow> js_error + jsval" where
  "walk result [] = Inr result"
| "walk result (key # path) =
     (case getProp result key of
        Inl e \<Rightarrow> Inl e
      | Inr r \<Rightarrow> if r = JUndefined then Inr JUndefined else walk r path)"

definition resolveValue :: "jsval \<Rightarrow> jsval \<Rightarrow> js_error + jsval" where
  "resolveValue v ctx =
     (case v of
        JStr (c # cs) \<Rightarrow> if c = CHR ''$'' then walk ctx (split_dot cs) else Inr v
      | _ \<Rightarrow> Inr v)"

record condition =
  left :: jsval
  operator :: string
  right :: jsval

text \<open>The \<open>switch (operator)\<close> of \<open>evaluateCondition\<close>.\<close>

definition compare_values :: "host \<Rightarrow> string \<Rightarrow> jsval \<Rightarrow> jsval \<Rightarrow> js_error + bool" where
  "compare_values h op leftValue rightValue =
     (if op = ''=='' then Inr (looseEq h leftValue rightValue)
      else if op = ''!='' then Inr (\<not> looseEq h leftValue rightValue)
      else if op = ''>'' then Inr (lessThan h rightValue leftValue = Some True)
      else if op = ''<'' then Inr (lessThan h leftValue rightValue = Some True)
      else if op = ''>='' then Inr (lessThan h leftValue rightValue = Some False)
      else if op = ''<='' then Inr (lessThan h rightValue leftValue = Some False)
      else if op = ''contains'' then
        Inr (str_includes (toString h leftValue) (toString h rightValue))
      else if op = ''matches'' then
        (case regExpTest h (if rightValue = JUndefined then [] else toString h rightValue)
                (toString h leftValue) of
           None \<Rightarrow> Inl (SyntaxError ''Invalid regular expression'')
         | Some b \<Rightarrow> Inr b)
      else Inr True)"

text \<open>The body of the \<open>try\<close> block of \<open>evaluateCondition\<close>.\<close>

definition evaluateCondition_try :: "host \<Rightarrow> condition \<Rightarrow> jsval \<Rightarrow> js_error + bool" where
  "evaluateCondition_try h c ctx =
     (case resolveValue (left c) ctx of
        Inl e \<Rightarrow> Inl e
      | Inr leftValue \<Rightarrow>
          (case resolveValue (right c) ctx of
             Inl e \<Rightarrow> Inl e
           | Inr rightValue \<Rightarrow> compare_values h (operator c) leftValue rightValue))"

text \<open>\<open>evaluateCondition\<close>: the \<open>catch\<close> logs the error and returns \<open>false\<close>.\<close>

definition evaluateCondition :: "host \<Rightarrow> condition \<Rightarrow> jsval \<Rightarrow> js_error + bool" where
  "evaluateCondition h c ctx =
     (case evaluateCondition_try h c ctx of
        Inl error \<Rightarrow> Inr False
      | Inr b \<Rightarrow> Inr b)"

text \<open>
  \<open>conditions.every(callback)\<close> stops at the first condition that is false; an error
  thrown by the callback would propagate.
\<close>

fun every :: "('a \<Rightarrow> js_error + bool) \<Rightarrow> 'a list \<Rightarrow> js_error + bool" where
  "every callback [] = Inr True"
| "every callback (x # xs) =
     (case callback x of
        Inl e \<Rightarrow> Inl e
      | Inr b \<Rightarrow> if b then every callback xs else Inr False)"

definition evaluateConditions :: "host \<Rightarrow> condition list \<Rightarrow> jsval \<Rightarrow> js_error + bool" where
  "evaluateConditions h conditions ctx = every (\<lambda>c. evaluateCondition h c ctx) conditions"

subsection \<open>executeWorkflow\<close>

text \<open>
  A step of a workflow. \<open>conditions\<close>, \<open>errorHandling\<close> and \<open>storeAs\<close> are optional
  properties (\<open>None\<close> when absent); an empty \<open>storeAs\<close> is falsy.
\<close>

record step =
  step_id :: string
  step_type :: string
  action :: jsval
  conditions :: "condition list option"
  errorHandling :: "string option"
  storeAs :: "string option"

text \<open>\<open>stepDelay\<close> is \<open>workflow.settings?.stepDelay\<close>: absent, or a number of milliseconds.\<close>

record workflow =
  steps :: "step list"
  stepDelay :: "nat option"

text \<open>
  The entries of the local array \<open>results\<close>: \<open>{stepId, skipped: true}\<close>,
  \<open>{stepId, result}\<close>, \<open>{stepId, result, retried: true}\<close> and
  \<open>{stepId, error: error.message}\<close>.
\<close>

datatype step_record =
    Skipped string | Result string jsval | Retried string jsval | Failed string string

text \<open>What an observer of a run sees: a call of \<open>executeStep\<close> on a step, a \<open>delay(ms)\<close>.\<close>

datatype exec_event = ExecuteStep string | Sleep nat

text \<open>
  The state of a run: the properties of the \<open>execution\<close> object (which is also the
  context of the conditions), the local array \<open>results\<close>, the outside world, the events
  so far.
\<close>

record 'w run_state =
  execution :: "(string \<times> jsval) list"
  results :: "step_record list"
  world :: 'w
  trace :: "exec_event list"

text \<open>
  \<open>executeStep\<close> dispatches the step to the browser tab, the network or a data
  transformation; its outcome depends on the step, on the execution object (which a loop
  step also writes) and on the outside world. It is a parameter of the model: a function
  from the step, the execution object and the world to the value returned or the error
  thrown, the execution object and the world afterwards.
\<close>

type_synonym 'w step_runner =
  "step \<Rightarrow> (string \<times> jsval) list \<Rightarrow> 'w \<Rightarrow> (js_error + jsval) \<times> (string \<times> jsval) list \<times> 'w"

definition call_executeStep ::
  "'w step_runner \<Rightarrow> step \<Rightarrow> 'w run_state \<Rightarrow> (js_error + jsval) \<times> 'w run_state"
where
  "call_executeStep executeStep s st =
     (case executeStep s (execution st) (world st) of
        (r, ex, w) \<Rightarrow>
          (r, st\<lparr>execution := ex, world := w, trace := trace st @ [ExecuteStep (step_id s)]\<rparr>))"

definition sleep :: "nat \<Rightarrow> 'w run_state \<Rightarrow> 'w run_state" where
  "sleep ms st = st\<lparr>trace := trace st @ [Sleep ms]\<rparr>"

text \<open>
  \<open>retryStep\<close>: the loop \<^verbatim>\<open>for (let i = 0; i < maxRetries; i++)\<close> from index \<open>i\<close> on.
  Each round sleeps before it calls \<open>executeStep\<close>.
\<close>

function retryStep_from ::
  "'w step_runner \<Rightarrow> step \<Rightarrow> nat \<Rightarrow> nat \<Rightarrow> js_error option \<Rightarrow> 'w run_state
     \<Rightarrow> (js_error option + jsval) \<times> 'w run_state"
where
  "retryStep_from executeStep s maxRetries i lastError st =
     (if i < maxRetries then
        (case call_executeStep executeStep s (sleep (2 ^ i * 1000) st) of
           (Inr v, st') \<Rightarrow> (Inr v, st')
         | (Inl e, st') \<Rightarrow> retryStep_from executeStep s maxRetries (Suc i) (Some e) st')
      else (Inl lastError, st))"
  by pat_completeness auto
termination
  by (relation "measure (\<lambda>(executeStep, s, maxRetries, i, lastError, st). maxRetries - i)") auto

text \<open>\<open>executeWorkflow\<close> calls \<open>retryStep\<close> with the default \<open>maxRetries = 3\<close>.\<close>

definition retryStep ::
  "'w step_runner \<Rightarrow> step \<Rightarrow> 'w run_state \<Rightarrow> (js_error option + jsval) \<times> 'w run_state"
where
  "retryStep executeStep s st = retryStep_from executeStep s 3 0 None st"

text \<open>
  \<open>execution[name].push(v)\<close>: only an array has \<open>push\<close>. The property can have been
  overwritten by an earlier step that stored its result under the same name.
\<close>

definition push :: "string \<Rightarrow> jsval \<Rightarrow> (string \<times> jsval) list \<Rightarrow> js_error + (string \<times> jsval) list"
where
  "push name v ex =
     (case map_of ex name of
        Some (JArr xs) \<Rightarrow> Inr (AList.update name (JArr (xs @ [v])) ex)
      | Some JNull \<Rightarrow> Inl (TypeError ''Cannot read properties of null'')
      | Some JUndefined \<Rightarrow> Inl (TypeError ''Cannot read properties of undefined'')
      | None \<Rightarrow> Inl (TypeError ''Cannot read properties of undefined'')
      | Some other \<Rightarrow> Inl (TypeError (''execution.'' @ name @ ''.push is not a function'')))"

text \<open>
  How one round of the loop of \<open>executeWorkflow\<close> ends: an error leaves the function
  (\<open>throw\<close>), the round is cut short by \<open>continue\<close>, or the round reaches its end, where
  the delay between steps stands.
\<close>

datatype round_end = Thrown "js_error option" | Continue | Completed

text \<open>The \<open>catch\<close> block of the round.\<close>

definition catch_block ::
  "'w step_runner \<Rightarrow> step \<Rightarrow> js_error \<Rightarrow> 'w run_state \<Rightarrow> round_end \<times> 'w run_state"
where
  "catch_block executeStep s error st =
     (if errorHandling s = Some ''fail'' then (Thrown (Some error), st)
      else if errorHandling s = Some ''retry'' then
        (case retryStep executeStep s st of
           (Inl e, st') \<Rightarrow> (Thrown e, st')
         | (Inr retryResult, st') \<Rightarrow>
             (Completed, st'\<lparr>results := results st' @ [Retried (step_id s) retryResult]\<rparr>))
      else
        (let st1 = st\<lparr>results := results st @ [Failed (step_id s) (message error)]\<rparr>
         in case push ''errors''
                   (JObj [(''step'', JStr (step_id s)), (''error'', JStr (message error))])
                   (execution st1) of
              Inl e \<Rightarrow> (Thrown (Some e), st1)
            | Inr ex \<Rightarrow> (Completed, st1\<lparr>execution := ex\<rparr>)))"

text \<open>The \<open>try\<close> block after the check of the conditions: the step is executed.\<close>

definition run_action ::
  "'w step_runner \<Rightarrow> step \<Rightarrow> 'w run_state \<Rightarrow> round_end \<times> 'w run_state"
where
  "run_action executeStep s st =
     (case call_executeStep executeStep s st of
        (Inl e, st1) \<Rightarrow> catch_block executeStep s e st1
      | (Inr result, st1) \<Rightarrow>
          (let st2 = st1\<lparr>results := results st1 @ [Result (step_id s) result]\<rparr>
           in case push ''results'' result (execution st2) of
                Inl e \<Rightarrow> catch_block executeStep s e st2
              | Inr ex \<Rightarrow>
                  (Completed,
                   st2\<lparr>execution :=
                         (case storeAs s of
                            Some name \<Rightarrow> if name \<noteq> [] then AList.update name result ex else ex
                          | None \<Rightarrow> ex)\<rparr>)))"

text \<open>
  The \<open>try\<close> statement of the round:
  \<^verbatim>\<open>if (step.conditions && !evaluateConditions(step.conditions, execution))\<close>
  records the step as skipped and continues with the next round.
\<close>

definition step_round ::
  "host \<Rightarrow> 'w step_runner \<Rightarrow> step \<Rightarrow> 'w run_state \<Rightarrow> round_end \<times> 'w run_state"
where
  "step_round h executeStep s st =
     (case (case conditions s of
              None \<Rightarrow> Inr True
            | Some cs \<Rightarrow> evaluateConditions h cs (JObj (execution st))) of
        Inl e \<Rightarrow> catch_block executeStep s e st
      | Inr ok \<Rightarrow>
          if \<not> ok then (Continue, st\<lparr>results := results st @ [Skipped (step_id s)]\<rparr>)
          else run_action executeStep s st)"

text \<open>\<open>execution.currentStep = i\<close> at the start of the round.\<close>

definition at_step :: "nat \<Rightarrow> 'w run_state \<Rightarrow> 'w run_state" where
  "at_step i st =
     st\<lparr>execution := AList.update ''currentStep'' (JNum (of_nat i)) (execution st)\<rparr>"

text \<open>
  \<^verbatim>\<open>if (workflow.settings?.stepDelay) { await delay(workflow.settings.stepDelay); }\<close>
  at the end of the round; a delay of 0 is falsy.
\<close>

definition step_delay :: "nat option \<Rightarrow> 'w run_state \<Rightarrow> 'w run_state" where
  "step_delay d st = (case d of Some ms \<Rightarrow> if ms \<noteq> 0 then sleep ms st else st | None \<Rightarrow> st)"

text \<open>
  The loop \<^verbatim>\<open>for (let i = 0; i < workflow.steps.length; i++)\<close> over the steps that
  are left, \<open>i\<close> being the index of the first of them.
\<close>

fun run_steps ::
  "host \<Rightarrow> 'w step_runner \<Rightarrow> nat option \<Rightarrow> step list \<Rightarrow> nat \<Rightarrow> 'w run_state
     \<Rightarrow> (js_error option + unit) \<times> 'w run_state"
where
  "run_steps h executeStep d [] i st = (Inr (), st)"
| "run_steps h executeStep d (s # rest) i st =
     (case step_round h executeStep s (at_step i st) of
        (Thrown e, st') \<Rightarrow> (Inl e, st')
      | (Continue, st') \<Rightarrow> run_steps h executeStep d rest (Suc i) st'
      | (Completed, st') \<Rightarrow> run_steps h executeStep d rest (Suc i) (step_delay d st'))"

text \<open>
  The value \<open>executeWorkflow\<close> returns, without its \<open>duration\<close> (a difference of two
  clock readings).
\<close>

record summary =
  executionId :: jsval
  step_results :: "step_record list"
  errors :: jsval

definition property :: "(string \<times> jsval) list \<Rightarrow> string \<Rightarrow> jsval" where
  "property ex name = (case map_of ex name of Some v \<Rightarrow> v | None \<Rightarrow> JUndefined)"

definition executeWorkflow ::
  "host \<Rightarrow> 'w step_runner \<Rightarrow> workflow \<Rightarrow> 'w run_state
     \<Rightarrow> (js_error option + summary) \<times> 'w run_state"
where
  "executeWorkflow h executeStep flow st =
     (case run_steps h executeStep (stepDelay flow) (steps flow) 0 (st\<lparr>results := []\<rparr>) of
        (Inl e, st') \<Rightarrow> (Inl e, st')
      | (Inr u, st') \<Rightarrow>
          (Inr \<lparr>executionId = property (execution st') ''id'', step_results = results st',
                errors = property (execution st') ''errors''\<rparr>, st'))"

text \<open>
  The execution object \<open>handleExecuteWorkflow\<close> builds before it calls
  \<open>executeWorkflow\<close>, and the state the run starts in.
\<close>

definition new_execution ::
  "jsval \<Rightarrow> jsval \<Rightarrow> jsval \<Rightarrow> jsval \<Rightarrow> jsval \<Rightarrow> jsval \<Rightarrow> (string \<times> jsval) list"
where
  "new_execution execId workflowId flow parameters tabId startTime =
     [(''id'', execId), (''workflowId'', workflowId), (''workflow'', flow),
      (''parameters'', parameters), (''tabId'', tabId), (''startTime'', startTime),
      (''status'', JStr ''running''), (''currentStep'', JNum 0),
      (''results'', JArr []), (''errors'', JArr [])]"

definition start_run :: "(string \<times> jsval) list \<Rightarrow> 'w \<Rightarrow> 'w run_state" where
  "start_run ex w = \<lparr>execution = ex, results = [], world = w, trace = []\<rparr>"


subsection \<open>handleGenerateWorkflow and createFallbackWorkflow\<close>













subsection \<open>A runtime for the examples\<close>

text \<open>
  The concrete examples fix the runtime's answers. No comparison in them reaches a
  conversion between strings and numbers, a regular expression or a pair of objects.
\<close>

definition example_host :: host where
  "example_host =
     \<lparr>stringToNumber = (\<lambda>s. None), numberToString = (\<lambda>n. ''0''),
      regExpTest = (\<lambda>p t. None), sameObject = (\<lambda>x y. False)\<rparr>"

subsection \<open>Notions used in the properties\<close>


text \<open>The events of the first \<open>n\<close> rounds of \<open>retryStep\<close> on a step.\<close>

definition retry_rounds :: "step \<Rightarrow> nat \<Rightarrow> exec_event list" where
  "retry_rounds s n = concat (map (\<lambda>k. [Sleep (2 ^ k * 1000), ExecuteStep (step_id s)]) [0..<n])"

text \<open>
  The invariant of a history whose clock never runs backwards, at a time \<open>T0\<close> not
  before its last reading: the limiter's list and the admitted timestamps agree on
  every window that ends at or after \<open>T0\<close>; the list never holds more than the capacity;
  no window of the limiter's length holds more than the capacity of admitted timestamps.
\<close>

definition limiter_inv :: "nat \<Rightarrow> int \<Rightarrow> int \<Rightarrow> rate_limiter \<times> int list \<Rightarrow> bool" where
  "limiter_inv n ms T0 s \<longleftrightarrow>
     maxRequests (fst s) = n \<and> windowMs (fst s) = ms \<and>
     length (requests (fst s)) \<le> n \<and>
     (\<forall>t \<in> set (snd s). t \<le> T0) \<and>
     (\<forall>T. T0 \<le> T \<longrightarrow>
        filter (\<lambda>t. T - t < ms) (requests (fst s)) = filter (\<lambda>t. T - t < ms) (snd s)) \<and>
     (\<forall>T. length (filter (\<lambda>t. T - t < ms \<and> t \<le> T) (snd s)) \<le> n)"

section \<open>Properties\<close>

subsection \<open>Retry\<close>

lemma race_timeout_error:
  "attempt_error r = Some e \<Longrightarrow> race_timeout r = Inl e"
  by (auto simp: attempt_error_def split: sum.splits)

text \<open>
  Claim C2. With \<open>maxRetries = 3\<close> and an operation whose three attempts all fail,
  \<open>executeWithRetry\<close> invokes the operation exactly three times, sleeps 1000 * 2^0 after
  the first failure and 1000 * 2^1 after the second, does not sleep after the third, and
  throws the error of the third attempt.
\<close>

theorem executeWithRetry_three_failures:
  assumes "operation w0 = (r1, w1)" and "operation w1 = (r2, w2)" and "operation w2 = (r3, w3)"
    and "attempt_error r1 = Some e1" and "attempt_error r2 = Some e2"
    and "attempt_error r3 = Some e3"
  shows "executeWithRetry operation 3 w0 =
           (Inl (Some e3), w3, [Attempt, Delay 1000, Attempt, Delay 2000, Attempt])"
proof -
  have third: "retry_from operation 3 3 (Some e3) w3 tr = (Inl (Some e3), w3, tr)" for tr
    by simp
  have from2: "retry_from operation 3 2 (Some e2) w2 tr = (Inl (Some e3), w3, tr @ [Attempt])"
    for tr
    using assms(3) race_timeout_error [OF assms(6)] third
    by (subst retry_from.simps) (simp add: numeral_3_eq_3)
  have from1: "retry_from operation 3 1 (Some e1) w1 tr =
      (Inl (Some e3), w3, tr @ [Attempt, Delay 2000, Attempt])" for tr
    using assms(2) race_timeout_error [OF assms(5)] from2
    by (subst retry_from.simps) (simp add: numeral_2_eq_2)
  have "retry_from operation 3 0 None w0 [] =
      (Inl (Some e3), w3, [Attempt, Delay 1000, Attempt, Delay 2000, Attempt])"
    using assms(1) race_timeout_error [OF assms(4)] from1
    by (subst retry_from.simps) simp
  then show ?thesis by (simp add: executeWithRetry_def)
qed

theorem executeWithRetry_three_failures_witness:
  "executeWithRetry (\<lambda>w::nat. (Rejects (Error ''HTTP 500'') :: unit settle, Suc w)) 3 0 =
     (Inl (Some (Error ''HTTP 500'')), 3, [Attempt, Delay 1000, Attempt, Delay 2000, Attempt])"
  using executeWithRetry_three_failures
    [of "\<lambda>w::nat. (Rejects (Error ''HTTP 500'') :: unit settle, Suc w)" 0
        "Rejects (Error ''HTTP 500'')" 1 "Rejects (Error ''HTTP 500'')" 2
        "Rejects (Error ''HTTP 500'')" 3
        "Error ''HTTP 500''" "Error ''HTTP 500''" "Error ''HTTP 500''"]
  by (simp add: attempt_error_def race_timeout_def numeral_2_eq_2 numeral_3_eq_3)

subsection \<open>Rate limiter\<close>

lemma cleanup_fields [simp]:
  "maxRequests (cleanup now rl) = maxRequests rl" "windowMs (cleanup now rl) = windowMs rl"
  "requests (cleanup now rl) = filter (\<lambda>time. now - time < windowMs rl) (requests rl)"
  by (simp_all add: cleanup_def)

lemma tryAcquire_fields:
  "maxRequests (snd (tryAcquire t rl)) = maxRequests rl"
  "windowMs (snd (tryAcquire t rl)) = windowMs rl"
  by (auto simp: tryAcquire_def canMakeRequest_def recordRequest_def Let_def split: prod.splits)

lemma tryAcquire_admits:
  "fst (tryAcquire (t1, t2, t3) rl) \<longleftrightarrow>
     length (filter (\<lambda>time. t1 - time < windowMs rl) (requests rl)) < maxRequests rl"
  by (simp add: tryAcquire_def canMakeRequest_def Let_def)

lemma tryAcquire_requests:
  "requests (snd (tryAcquire (t1, t2, t3) rl)) =
     (if fst (tryAcquire (t1, t2, t3) rl)
      then filter (\<lambda>time. t2 - time < windowMs rl)
             (filter (\<lambda>time. t1 - time < windowMs rl) (requests rl)) @ [t3]
      else filter (\<lambda>time. t1 - time < windowMs rl) (requests rl))"
  by (simp add: tryAcquire_def canMakeRequest_def recordRequest_def Let_def)

lemma length_filter_mono:
  "(\<And>x. x \<in> set xs \<Longrightarrow> P x \<Longrightarrow> Q x) \<Longrightarrow> length (filter P xs) \<le> length (filter Q xs)"
  by (induction xs) auto

lemma limiter_inv_new: "limiter_inv n ms T0 (new_limiter n ms, [])"
  by (simp add: limiter_inv_def new_limiter_def)

lemma limiter_inv_cleanup:
  assumes inv: "limiter_inv n ms T0 (rl, adm)" and later: "T0 \<le> t"
  shows "limiter_inv n ms t (cleanup t rl, adm)"
proof -
  from inv have win: "windowMs rl = ms" and len: "length (requests rl) \<le> n"
    and agree: "\<And>T. T0 \<le> T \<Longrightarrow>
        filter (\<lambda>t. T - t < ms) (requests rl) = filter (\<lambda>t. T - t < ms) adm"
    by (simp_all add: limiter_inv_def)
  have "length (filter (\<lambda>time. t - time < ms) (requests rl)) \<le> length (requests rl)"
    by (rule length_filter_le)
  with len have kept_len: "length (filter (\<lambda>time. t - time < ms) (requests rl)) \<le> n"
    by linarith
  have agree': "filter (\<lambda>x. T - x < ms) (filter (\<lambda>time. t - time < ms) (requests rl)) =
      filter (\<lambda>x. T - x < ms) adm" if "t \<le> T" for T
  proof -
    have "filter (\<lambda>x. T - x < ms) (filter (\<lambda>time. t - time < ms) (requests rl)) =
        filter (\<lambda>x. T - x < ms) (requests rl)"
      using that by (auto intro!: filter_cong)
    also have "\<dots> = filter (\<lambda>x. T - x < ms) adm"
      using that later by (intro agree) simp
    finally show ?thesis .
  qed
  show ?thesis
    using inv later kept_len agree'
    unfolding limiter_inv_def by (auto simp: win)
qed

lemma limiter_inv_later:
  "limiter_inv n ms T0 s \<Longrightarrow> T0 \<le> T1 \<Longrightarrow> limiter_inv n ms T1 s"
  unfolding limiter_inv_def by (meson order_trans)

lemma limiter_inv_acquire:
  assumes inv: "limiter_inv n ms T0 (rl, adm)" and mono: "T0 \<le> t1" "t1 \<le> t2" "t2 \<le> t3"
  shows "limiter_inv n ms t3 (limiter_step (rl, adm) (Acquire t1 t2 t3))"
proof -
  from inv have cap: "maxRequests rl = n" and win: "windowMs rl = ms"
    and old: "\<forall>t \<in> set adm. t \<le> T0"
    and agree: "\<And>T. T0 \<le> T \<Longrightarrow>
        filter (\<lambda>t. T - t < ms) (requests rl) = filter (\<lambda>t. T - t < ms) adm"
    and windows: "\<And>T. length (filter (\<lambda>t. T - t < ms \<and> t \<le> T) adm) \<le> n"
    by (simp_all add: limiter_inv_def)
  let ?kept = "filter (\<lambda>time. t1 - time < ms) (requests rl)"
  show ?thesis
  proof (cases "fst (tryAcquire (t1, t2, t3) rl)")
    case False
    then have "limiter_step (rl, adm) (Acquire t1 t2 t3) = (cleanup t1 rl, adm)"
      by (auto simp: tryAcquire_def canMakeRequest_def Let_def split: if_splits)
    moreover have "limiter_inv n ms t3 (cleanup t1 rl, adm)"
      using limiter_inv_cleanup [OF inv mono(1)] mono
      by (auto intro: limiter_inv_later)
    ultimately show ?thesis by simp
  next
    case True
    then have step: "limiter_step (rl, adm) (Acquire t1 t2 t3) =
        (snd (tryAcquire (t1, t2, t3) rl), adm @ [t3])"
      by (cases "tryAcquire (t1, t2, t3) rl") simp
    have room: "length ?kept < n"
      using True by (simp add: tryAcquire_admits win cap)
    have req: "requests (snd (tryAcquire (t1, t2, t3) rl)) =
        filter (\<lambda>time. t2 - time < ms) ?kept @ [t3]"
      using True by (simp add: tryAcquire_requests win)
    have "length (filter (\<lambda>time. t2 - time < ms) ?kept) \<le> length ?kept"
      by (rule length_filter_le)
    with room have len': "length (filter (\<lambda>time. t2 - time < ms) ?kept @ [t3]) \<le> n"
      by simp
    have agree': "filter (\<lambda>t. T - t < ms) (filter (\<lambda>time. t2 - time < ms) ?kept @ [t3]) =
        filter (\<lambda>t. T - t < ms) (adm @ [t3])" if "t3 \<le> T" for T
    proof -
      have "filter (\<lambda>t. T - t < ms) (filter (\<lambda>time. t2 - time < ms) ?kept) =
          filter (\<lambda>t. T - t < ms) (requests rl)"
        using that mono by (auto intro!: filter_cong)
      also have "\<dots> = filter (\<lambda>t. T - t < ms) adm"
        using that mono by (intro agree) simp
      finally show ?thesis by simp
    qed
    have windows': "length (filter (\<lambda>t. T - t < ms \<and> t \<le> T) (adm @ [t3])) \<le> n" for T
    proof (cases "T - t3 < ms \<and> t3 \<le> T")
      case False
      then show ?thesis using windows [of T] by auto
    next
      case True
      have "length (filter (\<lambda>t. T - t < ms \<and> t \<le> T) adm) \<le>
          length (filter (\<lambda>t. t1 - t < ms) adm)"
        using True mono by (intro length_filter_mono) auto
      also have "filter (\<lambda>t. t1 - t < ms) adm = ?kept"
        using agree [of t1] mono by simp
      finally show ?thesis using room True by simp
    qed
    show ?thesis
      unfolding limiter_inv_def step
      using old mono len' agree' windows'
      by (auto simp: req tryAcquire_fields cap win)
  qed
qed

lemma limiter_history_snoc:
  "limiter_history n ms (calls @ [c]) = limiter_step (limiter_history n ms calls) c"
  by (simp add: limiter_history_def)

lemma readings_snoc: "readings (calls @ [c]) = readings calls @ call_readings c"
  by (simp add: readings_def)

lemma limiter_history_inv:
  "sorted (readings calls) \<Longrightarrow> \<forall>r \<in> set (readings calls). r \<le> T
     \<Longrightarrow> limiter_inv n ms T (limiter_history n ms calls)"
proof (induction calls arbitrary: T rule: rev_induct)
  case Nil
  show ?case by (simp add: limiter_history_def limiter_inv_new)
next
  case (snoc c calls)
  obtain rl adm where s: "limiter_history n ms calls = (rl, adm)"
    by (cases "limiter_history n ms calls")
  from snoc.prems have sorted_pre: "sorted (readings calls)"
    by (simp add: readings_snoc sorted_append)
  show ?case
  proof (cases c)
    case (Acquire t1 t2 t3)
    from snoc.prems have before: "\<forall>r \<in> set (readings calls). r \<le> t1"
      and mono: "t1 \<le> t2" "t2 \<le> t3" and last: "t3 \<le> T"
      by (auto simp: Acquire readings_snoc sorted_append)
    have "limiter_inv n ms t1 (rl, adm)"
      using snoc.IH [OF sorted_pre before] by (simp add: s)
    then have "limiter_inv n ms t3 (limiter_step (rl, adm) (Acquire t1 t2 t3))"
      by (rule limiter_inv_acquire [OF _ order_refl mono])
    then show ?thesis
      using last by (simp add: limiter_history_snoc Acquire s limiter_inv_later)
  next
    case (CheckOnly t)
    from snoc.prems have before: "\<forall>r \<in> set (readings calls). r \<le> t" and last: "t \<le> T"
      by (auto simp: CheckOnly readings_snoc sorted_append)
    have "limiter_inv n ms t (rl, adm)"
      using snoc.IH [OF sorted_pre before] by (simp add: s)
    then have "limiter_inv n ms t (cleanup t rl, adm)"
      by (rule limiter_inv_cleanup) simp
    then show ?thesis
      using last
      by (simp add: limiter_history_snoc CheckOnly s canMakeRequest_def Let_def
          limiter_inv_later)
  qed
qed

lemma limiter_history_bounded:
  "maxRequests (fst (limiter_history n ms calls)) = n \<and>
   length (requests (fst (limiter_history n ms calls))) \<le> n"
proof (induction calls rule: rev_induct)
  case Nil
  show ?case by (simp add: limiter_history_def new_limiter_def)
next
  case (snoc c calls)
  obtain rl adm where s: "limiter_history n ms calls = (rl, adm)"
    by (cases "limiter_history n ms calls")
  from snoc.IH have cap: "maxRequests rl = n" and len: "length (requests rl) \<le> n"
    by (simp_all add: s)
  show ?case
  proof (cases c)
    case (CheckOnly t)
    have "length (filter (\<lambda>time. t - time < windowMs rl) (requests rl)) \<le> length (requests rl)"
      by (rule length_filter_le)
    with len have "length (filter (\<lambda>time. t - time < windowMs rl) (requests rl)) \<le> n"
      by linarith
    then show ?thesis
      by (simp add: limiter_history_snoc CheckOnly s canMakeRequest_def Let_def cap)
  next
    case (Acquire t1 t2 t3)
    let ?kept = "filter (\<lambda>time. t1 - time < windowMs rl) (requests rl)"
    have cap': "maxRequests (snd (tryAcquire (t1, t2, t3) rl)) = n"
      using cap by (simp add: tryAcquire_fields)
    have "length (requests (snd (tryAcquire (t1, t2, t3) rl))) \<le> n"
    proof (cases "fst (tryAcquire (t1, t2, t3) rl)")
      case True
      then have "length ?kept < n"
        using cap by (simp add: tryAcquire_admits)
      moreover have "length (filter (\<lambda>time. t2 - time < windowMs rl) ?kept) \<le> length ?kept"
        by (rule length_filter_le)
      ultimately show ?thesis
        using True by (simp add: tryAcquire_requests)
    next
      case False
      have "length ?kept \<le> length (requests rl)"
        by (rule length_filter_le)
      with len have "length ?kept \<le> n"
        by linarith
      then show ?thesis
        using False by (simp add: tryAcquire_requests)
    qed
    with cap' show ?thesis
      by (cases "tryAcquire (t1, t2, t3) rl") (simp add: limiter_history_snoc Acquire s)
  qed
qed

text \<open>
  Claim C5. Take any history of calls on a fresh limiter of capacity \<open>n\<close> and window
  \<open>ms\<close>. The limiter never holds more than \<open>n\<close> recorded requests. When the clock does
  not run backwards: once \<open>n\<close> admitted requests lie within the window at the next
  acquire, that acquire is refused; and no window of length \<open>ms\<close> contains more than
  \<open>n\<close> admitted requests.
\<close>

theorem rate_limiter_capacity:
  "length (requests (fst (limiter_history n ms calls))) \<le> n \<and>
   (sorted (readings calls @ [t1, t2, t3]) \<longrightarrow>
      (n \<le> length (filter (\<lambda>t. t1 - t < ms) (snd (limiter_history n ms calls))) \<longrightarrow>
         \<not> fst (tryAcquire (t1, t2, t3) (fst (limiter_history n ms calls)))) \<and>
      (\<forall>T. length (filter (\<lambda>t. T - ms < t \<and> t \<le> T) (snd (limiter_history n ms calls))) \<le> n))"
proof (intro conjI impI allI)
  show "length (requests (fst (limiter_history n ms calls))) \<le> n"
    using limiter_history_bounded by blast
next
  assume "sorted (readings calls @ [t1, t2, t3])"
  then have "sorted (readings calls)" and "\<forall>r \<in> set (readings calls). r \<le> t1"
    by (auto simp: sorted_append)
  then have inv: "limiter_inv n ms t1 (limiter_history n ms calls)"
    by (rule limiter_history_inv)
  let ?rl = "fst (limiter_history n ms calls)" and ?adm = "snd (limiter_history n ms calls)"
  from inv have cap: "maxRequests ?rl = n" and win: "windowMs ?rl = ms"
    and agree: "filter (\<lambda>t. t1 - t < ms) (requests ?rl) = filter (\<lambda>t. t1 - t < ms) ?adm"
    and windows: "\<And>T. length (filter (\<lambda>t. T - t < ms \<and> t \<le> T) ?adm) \<le> n"
    by (simp_all add: limiter_inv_def)
  {
    assume "n \<le> length (filter (\<lambda>t. t1 - t < ms) ?adm)"
    then show "\<not> fst (tryAcquire (t1, t2, t3) ?rl)"
      by (simp add: tryAcquire_admits cap win agree)
  }
  {
    fix T
    have "(\<lambda>t. T - ms < t \<and> t \<le> T) = (\<lambda>t. T - t < ms \<and> t \<le> T)"
      by (intro ext) auto
    then show "length (filter (\<lambda>t. T - ms < t \<and> t \<le> T) ?adm) \<le> n"
      using windows [of T] by simp
  }
qed

theorem rate_limiter_capacity_witness:
  "length (requests (fst (limiter_history 2 1000 [Acquire 0 0 0, CheckOnly 5, Acquire 10 10 11])))
     \<le> 2 \<and>
   \<not> fst (tryAcquire (20, 20, 20)
       (fst (limiter_history 2 1000 [Acquire 0 0 0, CheckOnly 5, Acquire 10 10 11]))) \<and>
   length (filter (\<lambda>t. 500 - 1000 < t \<and> t \<le> 500)
     (snd (limiter_history 2 1000 [Acquire 0 0 0, CheckOnly 5, Acquire 10 10 11]))) \<le> 2"
proof -
  have mono: "sorted (readings [Acquire 0 0 0, CheckOnly 5, Acquire 10 10 11] @ [20, 20, 20 :: int])"
    by (simp add: readings_def)
  have adm: "snd (limiter_history 2 1000 [Acquire 0 0 0, CheckOnly 5, Acquire 10 10 11]) = [0, 11]"
    by (simp add: limiter_history_def tryAcquire_def canMakeRequest_def
        recordRequest_def cleanup_def new_limiter_def)
  have full: "(2::nat) \<le> length (filter (\<lambda>t. 20 - t < 1000)
      (snd (limiter_history 2 1000 [Acquire 0 0 0, CheckOnly 5, Acquire 10 10 11])))"
    by (simp add: adm)
  show ?thesis
    using rate_limiter_capacity [of 2 1000 "[Acquire 0 0 0, CheckOnly 5, Acquire 10 10 11]" 20 20 20]
      mono full
    by blast
qed

subsection \<open>Response cache\<close>

lemma update_length:
  "length (AList.update k v al) = (if k \<in> fst ` set al then length al else Suc (length al))"
  by (induction al) auto

lemma setCache_length: "length c \<le> 100 \<Longrightarrow> length (setCache key data now c) \<le> 100"
proof -
  assume bound: "length c \<le> 100"
  let ?c1 = "AList.update key (data, now) c"
  have len1: "length ?c1 \<le> 101"
    using bound by (simp add: update_length)
  show ?thesis
  proof (cases ?c1)
    case Nil
    then show ?thesis by (simp add: setCache_def)
  next
    case (Cons p rest)
    obtain firstKey entry where p: "p = (firstKey, entry)" by (cases p)
    have "length (AList.delete firstKey ?c1) \<le> length rest"
      using length_delete_le [of firstKey rest] by (simp add: Cons p)
    moreover have "length rest \<le> 100"
      using len1 by (simp add: Cons)
    ultimately show ?thesis
      by (simp add: setCache_def Let_def Cons p)
  qed
qed

lemma getFromCache_length: "length (snd (getFromCache key now cacheExpiry c)) \<le> length c"
  by (auto simp: getFromCache_def length_delete_le split: option.splits)

lemma cache_step_length: "length c \<le> 100 \<Longrightarrow> length (cache_step c x) \<le> 100"
  using getFromCache_length [of _ _ _ c]
  by (cases x) (auto simp: setCache_length intro: le_trans)

lemma cache_after_length: "length (cache_after ops) \<le> 100"
proof (induction ops rule: rev_induct)
  case Nil
  show ?case by (simp add: cache_after_def)
next
  case (snoc x ops)
  then show ?case
    unfolding cache_after_def by (simp add: cache_step_length)
qed

lemma setCache_lookup:
  assumes "length c \<le> 100"
  shows "map_of (setCache key data now c) key = Some (data, now)"
proof -
  let ?c1 = "AList.update key (data, now) c"
  have stored: "map_of ?c1 key = Some (data, now)"
    by (simp add: update_conv')
  show ?thesis
  proof (cases "length ?c1 > 100")
    case False
    then show ?thesis using stored by (simp add: setCache_def Let_def)
  next
    case True
    with assms have fresh: "key \<notin> fst ` set c"
      by (auto simp: update_length split: if_splits)
    from True assms obtain firstKey entry rest where c: "c = (firstKey, entry) # rest"
      by (cases c) auto
    from fresh have differ: "firstKey \<noteq> key"
      by (auto simp: c)
    then have c1: "?c1 = (firstKey, entry) # AList.update key (data, now) rest"
      by (simp add: c)
    have "map_of (AList.delete firstKey ?c1) key = map_of ?c1 key"
      using differ by (simp add: delete_conv')
    then show ?thesis
      using True stored by (simp add: setCache_def Let_def c1)
  qed
qed

text \<open>
  Claim C6. In any cache the engine can reach, after \<open>setCache(k, v)\<close> with a positive
  time to live a \<open>getFromCache(k)\<close> at the same clock reading (and at any reading before
  the time to live has elapsed) returns \<open>v\<close>; once the time to live has elapsed,
  \<open>getFromCache(k)\<close> returns \<open>null\<close> and the cache it leaves has no entry for \<open>k\<close>.
\<close>

theorem cache_round_trip:
  assumes "0 < ttl"
  shows "fst (getFromCache k now ttl (setCache k v now (cache_after ops))) = Some v \<and>
    (\<forall>later. later - now < ttl \<longrightarrow>
       fst (getFromCache k later ttl (setCache k v now (cache_after ops))) = Some v) \<and>
    (\<forall>later. ttl \<le> later - now \<longrightarrow>
       fst (getFromCache k later ttl (setCache k v now (cache_after ops))) = None \<and>
       map_of (snd (getFromCache k later ttl (setCache k v now (cache_after ops)))) k = None)"
proof -
  have stored: "map_of (setCache k v now (cache_after ops)) k = Some (v, now)"
    by (rule setCache_lookup [OF cache_after_length])
  show ?thesis
    using assms by (simp add: getFromCache_def stored delete_conv')
qed

theorem cache_round_trip_witness:
  "fst (getFromCache ''workflow:a1'' 5000 3600000
     (setCache ''workflow:a1'' (7::nat) 5000
        (cache_after [SetCache ''workflow:zz'' 1 10, GetFromCache ''workflow:a1'' 20 3600000])))
   = Some 7 \<and>
   fst (getFromCache ''workflow:a1'' 3605000 3600000
     (setCache ''workflow:a1'' (7::nat) 5000
        (cache_after [SetCache ''workflow:zz'' 1 10, GetFromCache ''workflow:a1'' 20 3600000])))
   = None"
  using cache_round_trip
    [of 3600000 "''workflow:a1''" 5000 "7::nat"
        "[SetCache ''workflow:zz'' 1 10, GetFromCache ''workflow:a1'' 20 3600000]"]
  by simp

subsection \<open>Provider order\<close>












lemma getProviderOrder_example:
  "getProviderOrder [''groq'', ''huggingface'', ''openrouter'']
        [''openrouter:success'' \<mapsto> 3, ''openrouter:failure'' \<mapsto> 1] None = [''openrouter'', ''groq'', ''huggingface'']"
  by (simp add: getProviderOrder_def sort_by_def getSuccessRate_def)

subsection \<open>Conditions\<close>








lemma isNullish_boolToNumber [simp]: "isNullish (boolToNumber v) = isNullish v"
  by (cases v) simp_all




lemma evaluateCondition_resolved:
  "resolveValue (left c) ctx = Inr l \<Longrightarrow> resolveValue (right c) ctx = Inr r
     \<Longrightarrow> evaluateCondition h c ctx =
         (case compare_values h (operator c) l r of Inl e \<Rightarrow> Inr False | Inr b \<Rightarrow> Inr b)"
  by (simp add: evaluateCondition_def evaluateCondition_try_def)






text \<open>
  Claim C10, amended. For every condition whose operator is none of \<open>==\<close>, \<open>!=\<close>, \<open>>\<close>,
  \<open><\<close>, \<open>>=\<close>, \<open><=\<close>, \<open>contains\<close>, \<open>matches\<close> and whose two operands resolve without
  an error, \<open>evaluateCondition\<close> returns \<open>true\<close>, so a step guarded only by such a
  condition is executed rather than skipped.
\<close>

theorem unknown_operator:
  assumes "operator c \<notin> {''=='', ''!='', ''>'', ''<'', ''>='', ''<='', ''contains'', ''matches''}"
    and "resolveValue (left c) ctx = Inr l" and "resolveValue (right c) ctx = Inr r"
  shows "evaluateCondition h c ctx = Inr True \<and>
    (conditions s = Some [c] \<and> ctx = JObj (execution st) \<longrightarrow>
       step_round h executeStep s st = run_action executeStep s st)"
proof -
  have "compare_values h (operator c) l r = Inr True"
    using assms(1) by (simp add: compare_values_def)
  then have true: "evaluateCondition h c ctx = Inr True"
    by (simp add: evaluateCondition_resolved [OF assms(2,3)])
  then show ?thesis
    by (auto simp: step_round_def evaluateConditions_def)
qed

theorem unknown_operator_witness:
  "evaluateCondition example_host
     \<lparr>left = JStr ''$parameters.user'', operator = ''equals'', right = JStr ''admin''\<rparr>
     (JObj (execution (start_run [(''parameters'', JObj [(''user'', JStr ''admin'')])] (0::nat))))
     = Inr True \<and>
   step_round example_host (\<lambda>s ex w. (Inr JNull, ex, w))
     \<lparr>step_id = ''step_1'', step_type = ''click'', action = JNull,
      conditions = Some [\<lparr>left = JStr ''$parameters.user'', operator = ''equals'',
                           right = JStr ''admin''\<rparr>],
      errorHandling = None, storeAs = None\<rparr>
     (start_run [(''parameters'', JObj [(''user'', JStr ''admin'')])] (0::nat))
   = run_action (\<lambda>s ex w. (Inr JNull, ex, w))
     \<lparr>step_id = ''step_1'', step_type = ''click'', action = JNull,
      conditions = Some [\<lparr>left = JStr ''$parameters.user'', operator = ''equals'',
                           right = JStr ''admin''\<rparr>],
      errorHandling = None, storeAs = None\<rparr>
     (start_run [(''parameters'', JObj [(''user'', JStr ''admin'')])] (0::nat))"
proof -
  let ?c = "\<lparr>left = JStr ''$parameters.user'', operator = ''equals'', right = JStr ''admin''\<rparr>"
  let ?st = "start_run [(''parameters'', JObj [(''user'', JStr ''admin'')])] (0::nat)"
  let ?ctx = "JObj (execution ?st)"
  have op: "operator ?c \<notin> {''=='', ''!='', ''>'', ''<'', ''>='', ''<='', ''contains'', ''matches''}"
    by simp
  have l: "resolveValue (left ?c) ?ctx = Inr (JStr ''admin'')"
    by (simp add: resolveValue_def start_run_def)
  have r: "resolveValue (right ?c) ?ctx = Inr (JStr ''admin'')"
    by (simp add: resolveValue_def)
  from unknown_operator [OF op l r, of example_host
      "\<lparr>step_id = ''step_1'', step_type = ''click'', action = JNull,
        conditions = Some [?c], errorHandling = None, storeAs = None\<rparr>" ?st
      "\<lambda>s ex w. (Inr JNull, ex, w)"]
  show ?thesis by simp
qed

text \<open>
  Claim C10 as stated fails: the operator \<open>equals\<close> is none of the eight, the path
  \<open>$parameters.user.name\<close> leads through \<open>null\<close>, the lookup throws and the condition is
  false.
\<close>

theorem unknown_operator_counterexample:
  "evaluateCondition example_host
     \<lparr>left = JStr ''$parameters.user.name'', operator = ''equals'', right = JStr ''admin''\<rparr>
     (JObj [(''parameters'', JObj [(''user'', JNull)])]) = Inr False"
  by (simp add: resolveValue_def evaluateCondition_def evaluateCondition_try_def)

subsection \<open>Workflow execution\<close>



lemma call_executeStep_state:
  "call_executeStep executeStep s st = (r, st') \<Longrightarrow>
     trace st' = trace st @ [ExecuteStep (step_id s)] \<and> results st' = results st"
  by (auto simp: call_executeStep_def split: prod.splits)

lemma retryStep_from_rounds:
  "i \<le> m \<Longrightarrow>
   \<exists>n. i \<le> n \<and> n \<le> m \<and> (i < m \<longrightarrow> i < n) \<and>
     trace (snd (retryStep_from executeStep s m i lastError st)) =
       trace st @ concat (map (\<lambda>k. [Sleep (2 ^ k * 1000), ExecuteStep (step_id s)]) [i..<n]) \<and>
     (\<forall>t. fst (retryStep_from executeStep s m i lastError st) = Inl t \<longrightarrow> n = m)"
proof (induction "m - i" arbitrary: i lastError st)
  case 0
  then have "i = m" by simp
  then show ?case
    by (subst (1 2) retryStep_from.simps) auto
next
  case (Suc k)
  let ?f = "\<lambda>k. [Sleep (2 ^ k * 1000), ExecuteStep (step_id s)]"
  from Suc.hyps(2) have True: "i < m" and k: "k = m - Suc i" and le: "Suc i \<le> m"
    by simp_all
  obtain r st' where call: "call_executeStep executeStep s (sleep (2 ^ i * 1000) st) = (r, st')"
    by (cases "call_executeStep executeStep s (sleep (2 ^ i * 1000) st)")
  have tr: "trace st' = trace st @ ?f i"
    using call_executeStep_state [OF call] by (simp add: sleep_def)
  show ?case
  proof (cases r)
    case (Inr v)
    have res: "retryStep_from executeStep s m i lastError st = (Inr v, st')"
      using True call Inr by (subst retryStep_from.simps) simp
    have "trace st' = trace st @ concat (map ?f [i..<Suc i])"
      using tr by simp
    then show ?thesis
      using True unfolding res
      by (intro exI [of _ "Suc i"]) simp
  next
    case (Inl e)
    have res: "retryStep_from executeStep s m i lastError st =
        retryStep_from executeStep s m (Suc i) (Some e) st'"
      using True call Inl by (subst retryStep_from.simps) simp
    from Suc.hyps(1) [OF k le, of "Some e" st']
    obtain n where n: "Suc i \<le> n" "n \<le> m"
      and trn: "trace (snd (retryStep_from executeStep s m (Suc i) (Some e) st')) =
        trace st' @ concat (map ?f [Suc i..<n])"
      and last: "\<forall>t. fst (retryStep_from executeStep s m (Suc i) (Some e) st') = Inl t \<longrightarrow> n = m"
      by auto
    have "[i..<n] = i # [Suc i..<n]"
      using n by (simp add: upt_conv_Cons)
    then have "trace st' @ concat (map ?f [Suc i..<n]) = trace st @ concat (map ?f [i..<n])"
      by (simp add: tr)
    then show ?thesis
      using n trn last unfolding res
      by (intro exI [of _ n]) auto
  qed
qed

lemma retryStep_rounds:
  "\<exists>n. 1 \<le> n \<and> n \<le> 3 \<and>
     trace (snd (retryStep executeStep s st)) = trace st @ retry_rounds s n \<and>
     (\<forall>t. fst (retryStep executeStep s st) = Inl t \<longrightarrow> n = 3)"
  using retryStep_from_rounds [of 0 3 executeStep s None st]
  unfolding retryStep_def retry_rounds_def by (auto simp: Suc_le_eq)


lemma step_round_action:
  "conditions s = None \<or>
     (\<exists>cs. conditions s = Some cs \<and> evaluateConditions h cs (JObj (execution st)) = Inr True)
   \<Longrightarrow> step_round h executeStep s st = run_action executeStep s st"
  by (auto simp: step_round_def)

text \<open>
  Claim C4, amended. When the action of a step throws, the error aborts the remaining
  steps and fails the execution if the step's error handling is \<open>fail\<close>, and also if it
  is \<open>retry\<close> and the three further calls \<open>retryStep\<close> makes, after sleeps of 1000, 2000
  and 4000, all throw. Under \<open>retry\<close> with a call that succeeds the result is recorded
  as retried and the execution goes on. Under any other error handling the error is
  recorded (in the results and, while \<open>execution.errors\<close> is an array, in that list) and
  the execution goes on with the next step.
\<close>

theorem step_error_modes:
  assumes "conditions s = None \<or>
      (\<exists>cs. conditions s = Some cs \<and>
         evaluateConditions h cs (JObj (execution (at_step i st))) = Inr True)"
    and "call_executeStep executeStep s (at_step i st) = (Inl e, st1)"
  shows
    "(errorHandling s = Some ''fail'' \<longrightarrow>
        run_steps h executeStep d (s # rest) i st = (Inl (Some e), st1)) \<and>
     (errorHandling s \<noteq> Some ''fail'' \<and> errorHandling s \<noteq> Some ''retry'' \<and>
      map_of (execution st1) ''errors'' = Some (JArr errs) \<longrightarrow>
        run_steps h executeStep d (s # rest) i st =
          run_steps h executeStep d rest (Suc i)
            (step_delay d
               (st1\<lparr>results := results st1 @ [Failed (step_id s) (message e)],
                    execution :=
                      AList.update ''errors''
                        (JArr (errs @ [JObj [(''step'', JStr (step_id s)),
                                             (''error'', JStr (message e))]]))
                        (execution st1)\<rparr>))) \<and>
     (errorHandling s = Some ''retry'' \<longrightarrow>
        (\<exists>n. 1 \<le> n \<and> n \<le> 3 \<and>
           trace (snd (retryStep executeStep s st1)) = trace st1 @ retry_rounds s n \<and>
           (\<forall>t. fst (retryStep executeStep s st1) = Inl t \<longrightarrow> n = 3)) \<and>
        (\<forall>v st2. retryStep executeStep s st1 = (Inr v, st2) \<longrightarrow>
           run_steps h executeStep d (s # rest) i st =
             run_steps h executeStep d rest (Suc i)
               (step_delay d (st2\<lparr>results := results st2 @ [Retried (step_id s) v]\<rparr>))) \<and>
        (\<forall>t st2. retryStep executeStep s st1 = (Inl t, st2) \<longrightarrow>
           run_steps h executeStep d (s # rest) i st = (Inl t, st2)))"
proof -
  have round: "step_round h executeStep s (at_step i st) = catch_block executeStep s e st1"
    using assms by (simp add: step_round_action run_action_def)
  show ?thesis
  proof (intro conjI impI allI)
    assume "errorHandling s = Some ''fail''"
    then show "run_steps h executeStep d (s # rest) i st = (Inl (Some e), st1)"
      by (simp add: round catch_block_def)
  next
    assume "errorHandling s \<noteq> Some ''fail'' \<and> errorHandling s \<noteq> Some ''retry'' \<and>
      map_of (execution st1) ''errors'' = Some (JArr errs)"
    then show "run_steps h executeStep d (s # rest) i st =
        run_steps h executeStep d rest (Suc i)
          (step_delay d
             (st1\<lparr>results := results st1 @ [Failed (step_id s) (message e)],
                  execution :=
                    AList.update ''errors''
                      (JArr (errs @ [JObj [(''step'', JStr (step_id s)),
                                           (''error'', JStr (message e))]]))
                      (execution st1)\<rparr>))"
      by (simp add: round catch_block_def push_def Let_def)
  next
    show "\<exists>n. 1 \<le> n \<and> n \<le> 3 \<and>
        trace (snd (retryStep executeStep s st1)) = trace st1 @ retry_rounds s n \<and>
        (\<forall>t. fst (retryStep executeStep s st1) = Inl t \<longrightarrow> n = 3)"
      by (rule retryStep_rounds)
  next
    fix v st2
    assume "errorHandling s = Some ''retry''" and "retryStep executeStep s st1 = (Inr v, st2)"
    then show "run_steps h executeStep d (s # rest) i st =
        run_steps h executeStep d rest (Suc i)
          (step_delay d (st2\<lparr>results := results st2 @ [Retried (step_id s) v]\<rparr>))"
      by (simp add: round catch_block_def)
  next
    fix t st2
    assume "errorHandling s = Some ''retry''" and "retryStep executeStep s st1 = (Inl t, st2)"
    then show "run_steps h executeStep d (s # rest) i st = (Inl t, st2)"
      by (simp add: round catch_block_def)
  qed
qed

theorem step_error_modes_witness:
  "run_steps example_host (\<lambda>s ex w. (Inl (Error ''element not found''), ex, Suc w)) (Some 500)
     [\<lparr>step_id = ''step_1'', step_type = ''click'', action = JNull, conditions = None,
       errorHandling = None, storeAs = None\<rparr>] 0
     (start_run [(''results'', JArr []), (''errors'', JArr [])] (0::nat))
   = (Inr (),
      \<lparr>execution =
         [(''results'', JArr []),
          (''errors'', JArr [JObj [(''step'', JStr ''step_1''),
                                   (''error'', JStr ''element not found'')]]),
          (''currentStep'', JNum 0)],
       results = [Failed ''step_1'' ''element not found''], world = 1,
       trace = [ExecuteStep ''step_1'', Sleep 500]\<rparr>) \<and>
   run_steps example_host (\<lambda>s ex w. (Inl (Error ''element not found''), ex, Suc w)) (Some 500)
     [\<lparr>step_id = ''step_1'', step_type = ''click'', action = JNull, conditions = None,
       errorHandling = Some ''fail'', storeAs = None\<rparr>,
      \<lparr>step_id = ''step_2'', step_type = ''click'', action = JNull, conditions = None,
       errorHandling = None, storeAs = None\<rparr>] 0
     (start_run [(''results'', JArr []), (''errors'', JArr [])] (0::nat))
   = (Inl (Some (Error ''element not found'')),
      \<lparr>execution = [(''results'', JArr []), (''errors'', JArr []), (''currentStep'', JNum 0)],
       results = [], world = 1, trace = [ExecuteStep ''step_1'']\<rparr>) \<and>
   run_steps example_host
     (\<lambda>s ex w. (if w = 0 then Inl (Error ''element not found'') else Inr (JStr ''ok''), ex, Suc w))
     None
     [\<lparr>step_id = ''step_1'', step_type = ''click'', action = JNull, conditions = None,
       errorHandling = Some ''retry'', storeAs = None\<rparr>] 0
     (start_run [(''results'', JArr []), (''errors'', JArr [])] (0::nat))
   = (Inr (),
      \<lparr>execution = [(''results'', JArr []), (''errors'', JArr []), (''currentStep'', JNum 0)],
       results = [Retried ''step_1'' (JStr ''ok'')], world = 2,
       trace = [ExecuteStep ''step_1'', Sleep 1000, ExecuteStep ''step_1'']\<rparr>)"
proof -
  let ?fails = "\<lambda>(s::step) (ex::(string \<times> jsval) list) (w::nat).
      (Inl (Error ''element not found'') :: js_error + jsval, ex, Suc w)"
  let ?once = "\<lambda>(s::step) (ex::(string \<times> jsval) list) (w::nat).
      (if w = 0 then Inl (Error ''element not found'') else Inr (JStr ''ok''), ex, Suc w)"
  let ?s = "\<lambda>mode. \<lparr>step_id = ''step_1'', step_type = ''click'', action = JNull,
      conditions = None, errorHandling = mode, storeAs = None\<rparr>"
  let ?s2 = "\<lparr>step_id = ''step_2'', step_type = ''click'', action = JNull, conditions = None,
      errorHandling = None, storeAs = None\<rparr>"
  let ?st = "start_run [(''results'', JArr []), (''errors'', JArr [])] (0::nat)"
  let ?st1 = "\<lparr>execution = [(''results'', JArr []), (''errors'', JArr []), (''currentStep'', JNum 0)],
       results = [], world = Suc 0, trace = [ExecuteStep ''step_1'']\<rparr>"
  let ?st2 = "\<lparr>execution = [(''results'', JArr []), (''errors'', JArr []), (''currentStep'', JNum 0)],
       results = [], world = Suc (Suc 0),
       trace = [ExecuteStep ''step_1'', Sleep 1000, ExecuteStep ''step_1'']\<rparr>"
  have call: "call_executeStep ?fails (?s mode) (at_step 0 ?st) =
      (Inl (Error ''element not found''), ?st1)" for mode
    by (simp add: call_executeStep_def at_step_def start_run_def)
  have call_once: "call_executeStep ?once (?s mode) (at_step 0 ?st) =
      (Inl (Error ''element not found''), ?st1)" for mode
    by (simp add: call_executeStep_def at_step_def start_run_def)
  have retried: "retryStep ?once (?s (Some ''retry'')) ?st1 = (Inr (JStr ''ok''), ?st2)"
    by (simp add: retryStep_def call_executeStep_def sleep_def)
  have guard: "conditions (?s mode) = None \<or>
      (\<exists>cs. conditions (?s mode) = Some cs \<and>
         evaluateConditions example_host cs (JObj (execution (at_step 0 ?st))) = Inr True)"
    for mode by simp
  from step_error_modes [where d = "Some 500" and rest = "[]" and errs = "[]", OF guard call]
  have default_mode: "run_steps example_host ?fails (Some 500) [?s None] 0 ?st =
      (Inr (),
       \<lparr>execution =
          [(''results'', JArr []),
           (''errors'', JArr [JObj [(''step'', JStr ''step_1''),
                                    (''error'', JStr ''element not found'')]]),
           (''currentStep'', JNum 0)],
        results = [Failed ''step_1'' ''element not found''], world = 1,
        trace = [ExecuteStep ''step_1'', Sleep 500]\<rparr>)"
    by (simp add: step_delay_def sleep_def)
  from step_error_modes [where d = "Some 500" and rest = "[?s2]" and errs = "[]", OF guard call]
  have fail_mode: "run_steps example_host ?fails (Some 500) [?s (Some ''fail''), ?s2] 0 ?st =
      (Inl (Some (Error ''element not found'')),
       \<lparr>execution = [(''results'', JArr []), (''errors'', JArr []), (''currentStep'', JNum 0)],
        results = [], world = 1, trace = [ExecuteStep ''step_1'']\<rparr>)"
    by simp
  from step_error_modes [where d = None and rest = "[]" and errs = "[]", OF guard call_once]
    retried
  have retry_mode: "run_steps example_host ?once None [?s (Some ''retry'')] 0 ?st =
      (Inr (),
       \<lparr>execution = [(''results'', JArr []), (''errors'', JArr []), (''currentStep'', JNum 0)],
        results = [Retried ''step_1'' (JStr ''ok'')], world = 2,
        trace = [ExecuteStep ''step_1'', Sleep 1000, ExecuteStep ''step_1'']\<rparr>)"
    by (simp add: step_delay_def)
  from default_mode fail_mode retry_mode show ?thesis
    by (intro conjI)
qed

text \<open>
  Claim C4 as stated fails: the first step has error handling \<open>retry\<close>, not \<open>fail\<close>; its
  action throws on every call; the execution is aborted with that error and the second
  step is never executed.
\<close>

theorem retry_aborts_counterexample:
  "fst (executeWorkflow example_host
          (\<lambda>s ex w. (Inl (Error ''element not found''), ex, Suc w))
          \<lparr>steps = [\<lparr>step_id = ''step_1'', step_type = ''click'', action = JNull,
                     conditions = None, errorHandling = Some ''retry'', storeAs = None\<rparr>,
                    \<lparr>step_id = ''step_2'', step_type = ''click'', action = JNull,
                     conditions = None, errorHandling = None, storeAs = None\<rparr>],
           stepDelay = None\<rparr>
          (start_run [(''results'', JArr []), (''errors'', JArr [])] (0::nat)))
     = Inl (Some (Error ''element not found'')) \<and>
   trace (snd (executeWorkflow example_host
          (\<lambda>s ex w. (Inl (Error ''element not found''), ex, Suc w))
          \<lparr>steps = [\<lparr>step_id = ''step_1'', step_type = ''click'', action = JNull,
                     conditions = None, errorHandling = Some ''retry'', storeAs = None\<rparr>,
                    \<lparr>step_id = ''step_2'', step_type = ''click'', action = JNull,
                     conditions = None, errorHandling = None, storeAs = None\<rparr>],
           stepDelay = None\<rparr>
          (start_run [(''results'', JArr []), (''errors'', JArr [])] (0::nat))))
     = [ExecuteStep ''step_1'', Sleep 1000, ExecuteStep ''step_1'', Sleep 2000,
        ExecuteStep ''step_1'', Sleep 4000, ExecuteStep ''step_1'']"
  by code_simp


lemma catch_block_end:
  assumes "catch_block executeStep s e st = (oc, st')"
  shows "oc \<noteq> Continue"
    and "oc = Completed \<Longrightarrow>
      \<exists>rs v m. results st' = rs @ [Retried (step_id s) v] \<or> results st' = rs @ [Failed (step_id s) m]"
  using assms
  by (auto simp: catch_block_def Let_def split: if_splits prod.splits sum.splits)

lemma run_action_end:
  assumes "run_action executeStep s st = (oc, st')"
  shows "oc \<noteq> Continue"
    and "oc = Completed \<Longrightarrow>
      \<exists>rs v m. results st' = rs @ [Result (step_id s) v] \<or>
        results st' = rs @ [Retried (step_id s) v] \<or> results st' = rs @ [Failed (step_id s) m]"
proof -
  obtain r st1 where call: "call_executeStep executeStep s st = (r, st1)"
    by (cases "call_executeStep executeStep s st")
  show "oc \<noteq> Continue"
    using assms call
    by (auto simp: run_action_def Let_def split: sum.splits dest: catch_block_end(1))
  show "\<exists>rs v m. results st' = rs @ [Result (step_id s) v] \<or>
      results st' = rs @ [Retried (step_id s) v] \<or> results st' = rs @ [Failed (step_id s) m]"
    if "oc = Completed"
  proof (cases r)
    case (Inl e)
    then have "catch_block executeStep s e st1 = (oc, st')"
      using assms call by (simp add: run_action_def)
    from catch_block_end(2) [OF this that] show ?thesis by blast
  next
    case (Inr v)
    let ?st2 = "st1\<lparr>results := results st1 @ [Result (step_id s) v]\<rparr>"
    show ?thesis
    proof (cases "push ''results'' v (execution ?st2)")
      case (Inl e)
      then have "catch_block executeStep s e ?st2 = (oc, st')"
        using assms call Inr by (simp add: run_action_def Let_def)
      from catch_block_end(2) [OF this that] show ?thesis by blast
    next
      case (Inr ex)
      then have "results st' = results st1 @ [Result (step_id s) v]"
        using assms call \<open>r = Inr v\<close> by (auto simp: run_action_def Let_def)
      then show ?thesis by blast
    qed
  qed
qed

text \<open>
  Claim C7, amended. In a workflow that declares a non-zero delay between steps, the
  executor waits that duration after every step whose round runs to its end, that is
  after a step whose result, retried result or error has been recorded. It does not wait
  after a skipped step, nor after a step whose error aborts the execution.
\<close>

theorem step_delay_rule:
  assumes "step_round h executeStep s (at_step i st) = (oc, st')" and "ms \<noteq> 0"
  shows
    "(oc = Completed \<longrightarrow>
        (\<exists>rs v m. results st' = rs @ [Result (step_id s) v] \<or>
           results st' = rs @ [Retried (step_id s) v] \<or>
           results st' = rs @ [Failed (step_id s) m]) \<and>
        run_steps h executeStep (Some ms) (s # rest) i st =
          run_steps h executeStep (Some ms) rest (Suc i) (sleep ms st')) \<and>
     (oc = Continue \<longrightarrow>
        results st' = results st @ [Skipped (step_id s)] \<and> trace st' = trace st \<and>
        run_steps h executeStep (Some ms) (s # rest) i st =
          run_steps h executeStep (Some ms) rest (Suc i) st') \<and>
     (\<forall>t. oc = Thrown t \<longrightarrow>
        run_steps h executeStep (Some ms) (s # rest) i st = (Inl t, st'))"
proof (intro conjI impI allI)
  assume completed: "oc = Completed"
  show "run_steps h executeStep (Some ms) (s # rest) i st =
      run_steps h executeStep (Some ms) rest (Suc i) (sleep ms st')"
    using assms completed by (simp add: step_delay_def)
  have "catch_block executeStep s e (at_step i st) = (oc, st') \<Longrightarrow>
      \<exists>rs v m. results st' = rs @ [Result (step_id s) v] \<or>
        results st' = rs @ [Retried (step_id s) v] \<or> results st' = rs @ [Failed (step_id s) m]"
    for e using catch_block_end(2) [of executeStep s e "at_step i st" oc st'] completed by blast
  moreover have "run_action executeStep s (at_step i st) = (oc, st') \<Longrightarrow>
      \<exists>rs v m. results st' = rs @ [Result (step_id s) v] \<or>
        results st' = rs @ [Retried (step_id s) v] \<or> results st' = rs @ [Failed (step_id s) m]"
    using run_action_end(2) [of executeStep s "at_step i st" oc st'] completed by blast
  ultimately show "\<exists>rs v m. results st' = rs @ [Result (step_id s) v] \<or>
      results st' = rs @ [Retried (step_id s) v] \<or> results st' = rs @ [Failed (step_id s) m]"
    using assms(1) completed
    by (auto simp: step_round_def split: sum.splits if_splits)
next
  assume skip: "oc = Continue"
  have no_catch: "catch_block executeStep s e (at_step i st) \<noteq> (Continue, st')" for e
    using catch_block_end(1) [of executeStep s e "at_step i st" Continue st'] by blast
  have no_action: "run_action executeStep s (at_step i st) \<noteq> (Continue, st')"
    using run_action_end(1) [of executeStep s "at_step i st" Continue st'] by blast
  from assms(1) skip no_catch no_action
  have st': "st' = (at_step i st)\<lparr>results := results (at_step i st) @ [Skipped (step_id s)]\<rparr>"
    by (auto simp: step_round_def split: sum.splits if_splits)
  show "results st' = results st @ [Skipped (step_id s)]"
    by (simp add: st' at_step_def)
  show "trace st' = trace st"
    by (simp add: st' at_step_def)
  show "run_steps h executeStep (Some ms) (s # rest) i st =
      run_steps h executeStep (Some ms) rest (Suc i) st'"
    using assms skip by simp
next
  fix t
  assume "oc = Thrown t"
  then show "run_steps h executeStep (Some ms) (s # rest) i st = (Inl t, st')"
    using assms by simp
qed

theorem step_delay_rule_witness:
  "run_steps example_host (\<lambda>s ex w. (Inr (JStr ''ok''), ex, Suc w)) (Some 500)
     [\<lparr>step_id = ''step_1'', step_type = ''click'', action = JNull, conditions = None,
       errorHandling = None, storeAs = None\<rparr>] 0
     (start_run [(''results'', JArr []), (''errors'', JArr [])] (0::nat))
   = (Inr (),
      \<lparr>execution = [(''results'', JArr [JStr ''ok'']), (''errors'', JArr []),
                    (''currentStep'', JNum 0)],
       results = [Result ''step_1'' (JStr ''ok'')], world = 1,
       trace = [ExecuteStep ''step_1'', Sleep 500]\<rparr>) \<and>
   run_steps example_host (\<lambda>s ex w. (Inr (JStr ''ok''), ex, Suc w)) (Some 500)
     [\<lparr>step_id = ''step_1'', step_type = ''click'', action = JNull,
       conditions = Some [\<lparr>left = JStr ''$parameters'', operator = ''=='', right = JNum 1\<rparr>],
       errorHandling = None, storeAs = None\<rparr>] 0
     (start_run [(''results'', JArr []), (''errors'', JArr [])] (0::nat))
   = (Inr (),
      \<lparr>execution = [(''results'', JArr []), (''errors'', JArr []), (''currentStep'', JNum 0)],
       results = [Skipped ''step_1''], world = 0, trace = []\<rparr>)"
proof -
  let ?run = "\<lambda>(s::step) (ex::(string \<times> jsval) list) (w::nat).
      (Inr (JStr ''ok'') :: js_error + jsval, ex, Suc w)"
  let ?s = "\<lparr>step_id = ''step_1'', step_type = ''click'', action = JNull, conditions = None,
       errorHandling = None, storeAs = None\<rparr>"
  let ?guarded = "\<lparr>step_id = ''step_1'', step_type = ''click'', action = JNull,
       conditions = Some [\<lparr>left = JStr ''$parameters'', operator = ''=='', right = JNum 1\<rparr>],
       errorHandling = None, storeAs = None\<rparr>"
  let ?st = "start_run [(''results'', JArr []), (''errors'', JArr [])] (0::nat)"
  let ?st' = "\<lparr>execution = [(''results'', JArr [JStr ''ok'']), (''errors'', JArr []),
                    (''currentStep'', JNum 0)],
       results = [Result ''step_1'' (JStr ''ok'')], world = Suc 0,
       trace = [ExecuteStep ''step_1'']\<rparr>"
  let ?skipped = "\<lparr>execution = [(''results'', JArr []), (''errors'', JArr []),
                    (''currentStep'', JNum 0)],
       results = [Skipped ''step_1''], world = 0::nat, trace = []\<rparr>"
  have round: "step_round example_host ?run ?s (at_step 0 ?st) = (Completed, ?st')"
    by (simp add: step_round_def run_action_def call_executeStep_def push_def at_step_def
        start_run_def)
  have skip: "step_round example_host ?run ?guarded (at_step 0 ?st) = (Continue, ?skipped)"
    by (simp add: step_round_def evaluateConditions_def evaluateCondition_def
        evaluateCondition_try_def resolveValue_def compare_values_def looseEq_def at_step_def
        start_run_def)
  have ms: "(500::nat) \<noteq> 0" by simp
  from step_delay_rule [OF round ms, of "[]"]
  have completed: "run_steps example_host ?run (Some 500) [?s] 0 ?st =
      (Inr (),
       \<lparr>execution = [(''results'', JArr [JStr ''ok'']), (''errors'', JArr []),
                     (''currentStep'', JNum 0)],
        results = [Result ''step_1'' (JStr ''ok'')], world = 1,
        trace = [ExecuteStep ''step_1'', Sleep 500]\<rparr>)"
    by (simp add: sleep_def)
  from step_delay_rule [OF skip ms, of "[]"]
  have "run_steps example_host ?run (Some 500) [?guarded] 0 ?st = (Inr (), ?skipped)"
    by simp
  with completed show ?thesis
    by (intro conjI)
qed

text \<open>
  Claim C7 as stated fails: the workflow declares a delay of 500 between steps, its only
  step is skipped because its condition is false, and the executor does not wait at all.
\<close>

theorem no_delay_after_skip_counterexample:
  "executeWorkflow example_host (\<lambda>s ex w. (Inr (JStr ''ok''), ex, Suc w))
     \<lparr>steps = [\<lparr>step_id = ''step_1'', step_type = ''click'', action = JNull,
                conditions = Some [\<lparr>left = JStr ''$parameters.enabled'', operator = ''=='',
                                     right = JBool True\<rparr>],
                errorHandling = None, storeAs = None\<rparr>],
      stepDelay = Some 500\<rparr>
     (start_run [(''parameters'', JObj []), (''results'', JArr []), (''errors'', JArr [])] (0::nat))
   = (Inr \<lparr>executionId = JUndefined, step_results = [Skipped ''step_1''], errors = JArr []\<rparr>,
      \<lparr>execution = [(''parameters'', JObj []), (''results'', JArr []), (''errors'', JArr []),
                    (''currentStep'', JNum 0)],
       results = [Skipped ''step_1''], world = 0, trace = []\<rparr>)"
  by code_simp

subsection \<open>Generation requests\<close>



end
